theory Spec2Isabelle
  imports Complex_Main "HOL-Library.Word" "HOL-Library.Multiset"
begin

unbundle bit_operations_syntax

section \<open>UIU University Management System: the flat record store\<close>

text \<open>
  The program (\<^verbatim>\<open>uiu_ums.c\<close>) keeps every entity in a flat binary file of fixed-size
  records and reaches it through five helpers: \<^verbatim>\<open>file_count_records\<close>,
  \<^verbatim>\<open>file_find_first\<close>, \<^verbatim>\<open>file_read_at\<close>, \<^verbatim>\<open>file_write_at\<close> and \<^verbatim>\<open>file_append\<close>.
  Each helper opens the file, works on it and closes it again, so the state between two
  calls is the state of the file alone.

  Modelling conventions.
  \<^item> A file is a sequence of storage cells of type \<open>'a\<close>; the helpers group the cells in
    blocks of \<open>recSize\<close> cells, as the C code groups bytes in blocks of \<open>sizeof(T)\<close> bytes.
    With \<open>'a = 8 word\<close> a cell is a byte. The typed part of the development further down
    instantiates \<open>'a\<close> with a struct type and \<open>recSize\<close> with 1: there one cell holds one
    struct value, which is what one \<^verbatim>\<open>fread\<close> or \<^verbatim>\<open>fwrite\<close> of \<open>sizeof(T)\<close> bytes moves.
  \<^item> A path names one of three states: no file (\<open>Absent\<close>), a file that \<^verbatim>\<open>fopen\<close>
    refuses to open in any mode (\<open>Locked\<close>), or a regular file (\<open>Data\<close>). On an open
    stream \<^verbatim>\<open>fseek\<close>, \<^verbatim>\<open>fread\<close> and \<^verbatim>\<open>fwrite\<close> behave as on a regular file: no other
    environmental failure (full disk, failing \<^verbatim>\<open>malloc\<close>) is part of the model.
  \<^item> A \<^verbatim>\<open>long\<close> value is an \<open>int\<close> and a \<^verbatim>\<open>size_t\<close> value a \<open>nat\<close>; both types have
    64 bits. The byte offset \<open>index * recSize\<close> handed to \<^verbatim>\<open>fseek\<close> is computed as the
    C code computes it, modulo \<open>2 ^ 64\<close> (\<open>seek_offset\<close> below). Sizes of files are not
    bounded in the model; a theorem that needs a file whose size is a \<^verbatim>\<open>long\<close> says so.
  \<^item> \<open>recSize\<close> is \<open>sizeof(T)\<close> at every call of the program and so is positive; the
    theorems assume \<open>0 < recSize\<close> where the C code would divide by it. A record
    handed to \<^verbatim>\<open>file_append\<close> or \<^verbatim>\<open>file_write_at\<close> is an object of \<open>recSize\<close> cells; the
    theorems about writing assume \<open>length r = recSize\<close>.
\<close>

subsection \<open>Files and streams\<close>

datatype 'a disk_file = Absent | Locked "'a list" | Data "'a list"

text \<open>\<^verbatim>\<open>fopen(path, "rb")\<close>: the content of the file, or \<open>None\<close> for \<^verbatim>\<open>NULL\<close>.\<close>

definition fopen_rb :: "'a disk_file \<Rightarrow> 'a list option" where
  "fopen_rb f = (case f of Data bs \<Rightarrow> Some bs | Locked bs \<Rightarrow> None | Absent \<Rightarrow> None)"

text \<open>\<^verbatim>\<open>fopen(path, "rb+")\<close>: as \<^verbatim>\<open>"rb"\<close>, the file must exist.\<close>

definition fopen_rb_plus :: "'a disk_file \<Rightarrow> 'a list option" where
  "fopen_rb_plus f = (case f of Data bs \<Rightarrow> Some bs | Locked bs \<Rightarrow> None | Absent \<Rightarrow> None)"

text \<open>\<^verbatim>\<open>fopen(path, "ab")\<close>: a missing file is created empty.\<close>

definition fopen_ab :: "'a disk_file \<Rightarrow> 'a list option" where
  "fopen_ab f = (case f of Data bs \<Rightarrow> Some bs | Locked bs \<Rightarrow> None | Absent \<Rightarrow> Some [])"

text \<open>
  \<^verbatim>\<open>fread(buf, recSize, 1, fp) == 1\<close> on the cells \<open>rest\<close> that remain after the stream
  position: the block read and the cells after it, or \<open>None\<close> when fewer than \<open>recSize\<close>
  cells remain (and when \<open>recSize\<close> is 0, where \<^verbatim>\<open>fread\<close> returns 0).
\<close>

definition fread1 :: "nat \<Rightarrow> 'a list \<Rightarrow> ('a list \<times> 'a list) option" where
  "fread1 recSize rest =
     (if recSize = 0 \<or> length rest < recSize then None
      else Some (take recSize rest, drop recSize rest))"

text \<open>
  \<^verbatim>\<open>fwrite(rec, recSize, 1, fp) == 1\<close> on a stream opened for appending: every write
  goes to the end of the file. With \<open>recSize = 0\<close> nothing is written and the call
  returns 0.
\<close>

definition fwrite1_end :: "nat \<Rightarrow> 'a list \<Rightarrow> 'a list \<Rightarrow> bool \<times> 'a list" where
  "fwrite1_end recSize rec bs =
     (if recSize = 0 then (False, bs) else (True, bs @ take recSize rec))"

text \<open>
  \<^verbatim>\<open>fwrite(rec, recSize, 1, fp) == 1\<close> on a \<^verbatim>\<open>"rb+"\<close> stream that \<^verbatim>\<open>fseek\<close> has put at
  cell \<open>pos\<close>. The block overwrites the cells it covers; a position past the end of the
  file is legal, the gap reads as zeros and the file grows.
\<close>

definition fwrite1_at :: "nat \<Rightarrow> 'a::zero list \<Rightarrow> nat \<Rightarrow> 'a list \<Rightarrow> bool \<times> 'a list" where
  "fwrite1_at recSize rec pos bs =
     (if recSize = 0 then (False, bs)
      else (let padded = bs @ replicate (pos - length bs) 0
            in (True, take pos padded @ take recSize rec @ drop (pos + recSize) padded)))"

text \<open>
  The blocks that a loop \<^verbatim>\<open>while (fread(buf, recSize, 1, fp) == 1) { ... }\<close> sees, in
  order, from a stream with the cells \<open>rest\<close> ahead of it.
\<close>

function read_records :: "nat \<Rightarrow> 'a list \<Rightarrow> 'a list list" where
  "read_records recSize rest =
     (case fread1 recSize rest of
        None \<Rightarrow> []
      | Some (buf, rest') \<Rightarrow> buf # read_records recSize rest')"
  by pat_completeness auto
termination
  by (relation "measure (\<lambda>(recSize, rest). length rest)")
     (auto simp: fread1_def split: if_splits)

declare read_records.simps [simp del]

subsection \<open>The five helpers\<close>

text \<open>
  \<^verbatim>\<open>long file_count_records(const char *path, size_t recSize)\<close>. \<^verbatim>\<open>ftell\<close> at the
  end of the stream is the number of cells of the file.
\<close>

definition file_count_records :: "'a disk_file \<Rightarrow> nat \<Rightarrow> int" where
  "file_count_records f recSize =
     (case fopen_rb f of
        None \<Rightarrow> 0
      | Some bs \<Rightarrow>
          (let bytes = int (length bs)
           in if bytes < 0 then 0 else bytes div int recSize))"

text \<open>
  \<^verbatim>\<open>long file_find_first(path, recSize, pred, key, out)\<close>: the loop, from index \<open>idx\<close>
  with the cells \<open>rest\<close> still to read. The result is the returned index together with the
  block copied to \<^verbatim>\<open>out\<close> (a caller that passes \<^verbatim>\<open>NULL\<close> ignores the block).
\<close>

function find_loop ::
  "nat \<Rightarrow> ('a list \<Rightarrow> 'k \<Rightarrow> bool) \<Rightarrow> 'k \<Rightarrow> int \<Rightarrow> 'a list \<Rightarrow> int \<times> 'a list option" where
  "find_loop recSize pred key idx rest =
     (case fread1 recSize rest of
        None \<Rightarrow> (- 1, None)
      | Some (buf, rest') \<Rightarrow>
          if pred buf key then (idx, Some buf)
          else find_loop recSize pred key (idx + 1) rest')"
  by pat_completeness auto
termination
  by (relation "measure (\<lambda>(recSize, pred, key, idx, rest). length rest)")
     (auto simp: fread1_def split: if_splits)

declare find_loop.simps [simp del]

definition file_find_first ::
  "'a disk_file \<Rightarrow> nat \<Rightarrow> ('a list \<Rightarrow> 'k \<Rightarrow> bool) \<Rightarrow> 'k \<Rightarrow> int \<times> 'a list option" where
  "file_find_first f recSize pred key =
     (case fopen_rb f of
        None \<Rightarrow> (- 1, None)
      | Some bs \<Rightarrow> find_loop recSize pred key 0 bs)"

text \<open>
  The expression \<^verbatim>\<open>index * recSize\<close> with \<^verbatim>\<open>long index\<close> and \<^verbatim>\<open>size_t recSize\<close>, as
  \<^verbatim>\<open>file_read_at\<close> and \<^verbatim>\<open>file_write_at\<close> pass it to \<^verbatim>\<open>fseek(FILE *, long, int)\<close>: the
  index is converted to \<^verbatim>\<open>size_t\<close>, the product is taken in \<^verbatim>\<open>size_t\<close>, that is modulo
  \<open>2 ^ 64\<close>, and the result is converted to the \<^verbatim>\<open>long\<close> parameter (two's complement).
\<close>

definition LONG_MAX :: int where "LONG_MAX = 2 ^ 63 - 1"

definition seek_offset :: "nat \<Rightarrow> int \<Rightarrow> int" where
  "seek_offset recSize index = sint ((word_of_int index :: 64 word) * word_of_nat recSize)"

text \<open>
  \<^verbatim>\<open>int file_read_at(path, recSize, index, out)\<close>: \<open>Some rec\<close> stands for the return
  value 1 with \<open>rec\<close> copied to \<^verbatim>\<open>out\<close>, \<open>None\<close> for the return value 0. \<^verbatim>\<open>fseek\<close> fails
  on a negative offset and accepts any other one.
\<close>

definition file_read_at :: "'a disk_file \<Rightarrow> nat \<Rightarrow> int \<Rightarrow> 'a list option" where
  "file_read_at f recSize index =
     (case fopen_rb f of
        None \<Rightarrow> None
      | Some bs \<Rightarrow>
          (let off = seek_offset recSize index
           in if off < 0 then None
              else (case fread1 recSize (drop (nat off) bs) of
                      None \<Rightarrow> None
                    | Some (buf, rest') \<Rightarrow> Some buf)))"

text \<open>
  \<^verbatim>\<open>int file_write_at(path, recSize, index, rec)\<close>: the returned flag and the file
  afterwards.
\<close>

definition file_write_at :: "'a::zero disk_file \<Rightarrow> nat \<Rightarrow> int \<Rightarrow> 'a list \<Rightarrow> int \<times> 'a disk_file" where
  "file_write_at f recSize index rec =
     (case fopen_rb f of
        None \<Rightarrow> (0, f)
      | Some rbs \<Rightarrow>
          (case fopen_rb_plus f of
             None \<Rightarrow> (0, f)
           | Some bs \<Rightarrow>
               (let off = seek_offset recSize index
                in if off < 0 then (0, f)
                   else (let (ok, bs') = fwrite1_at recSize rec (nat off) bs
                         in (if ok then 1 else 0, Data bs')))))"

text \<open>
  \<^verbatim>\<open>int file_append(path, recSize, rec)\<close>: the returned flag and the file afterwards.
\<close>

definition file_append :: "'a disk_file \<Rightarrow> nat \<Rightarrow> 'a list \<Rightarrow> int \<times> 'a disk_file" where
  "file_append f recSize rec =
     (case fopen_ab f of
        None \<Rightarrow> (0, f)
      | Some bs \<Rightarrow>
          (let (ok, bs') = fwrite1_end recSize rec bs
           in (if ok then 1 else 0, Data bs')))"

text \<open>
  The complete records of a file content: the cells before the trailing partial record.
\<close>

definition complete_part :: "nat \<Rightarrow> 'a list \<Rightarrow> 'a list" where
  "complete_part recSize bs = take (length bs div recSize * recSize) bs"

section \<open>Utilities\<close>

definition MAX_USER :: nat where "MAX_USER = 32"
definition MAX_PASS :: nat where "MAX_PASS = 32"

definition SALT :: "8 word list" where
  "SALT = [0x55, 0x2A, 0x11, 0xC3, 0x7E, 0x90, 0x04, 0xD1]"

text \<open>
  \<^verbatim>\<open>void obfuscate(const char *plain, unsigned char out[MAX_PASS])\<close>: the buffer \<open>out\<close>
  after the loop over \<open>i = 0 .. MAX_PASS - 1\<close>. The loop compares \<open>i\<close> with \<^verbatim>\<open>(int)n\<close>,
  the length \<^verbatim>\<open>size_t n = strlen(plain)\<close> narrowed to the 32 bits of an \<^verbatim>\<open>int\<close>
  (\<open>int_of_size\<close>): from \<open>2 ^ 31\<close> characters on the narrowed length is not the length.
\<close>

definition INT_MAX :: int where "INT_MAX = 2 ^ 31 - 1"

definition int_of_size :: "nat \<Rightarrow> int" where
  "int_of_size n = sint (word_of_nat n :: 32 word)"

definition obfuscate :: "string \<Rightarrow> 8 word list" where
  "obfuscate plain =
     (let n = length plain
      in map (\<lambda>i. (let p = (if int i < int_of_size n then (of_char (plain ! i) :: 8 word) else 0)
                    in p XOR SALT ! (i mod 8)))
             [0 ..< MAX_PASS])"

text \<open>\<^verbatim>\<open>memcmp(a, b, n) == 0\<close>.\<close>

definition memcmp_eq :: "8 word list \<Rightarrow> 8 word list \<Rightarrow> nat \<Rightarrow> bool" where
  "memcmp_eq a b n = (take n a = take n b)"

definition verify_pass :: "8 word list \<Rightarrow> string \<Rightarrow> bool" where
  "verify_pass obf try_pass = (let tmp = obfuscate try_pass in memcmp_eq obf tmp MAX_PASS)"

subsection \<open>Console input\<close>









section \<open>Entities and their files\<close>







definition block_of :: "'a \<Rightarrow> 'a list" where
  "block_of x = [x]"


subsection \<open>Predicates\<close>




section \<open>Domain logic\<close>

text \<open>\<^verbatim>\<open>float grade_to_points(const char *g)\<close>; \<open>- 1\<close> is the invalid result.\<close>

definition grade_to_points :: "string \<Rightarrow> rat" where
  "grade_to_points g =
     (if g = ''A'' then 4
      else if g = ''A-'' then 37 / 10
      else if g = ''B+'' then 33 / 10
      else if g = ''B'' then 3
      else if g = ''B-'' then 27 / 10
      else if g = ''C+'' then 23 / 10
      else if g = ''C'' then 2
      else if g = ''C-'' then 17 / 10
      else if g = ''D'' then 1
      else if g = ''F'' then 0
      else - 1)"

text \<open>The ten grade symbols of the table.\<close>

definition valid_grades :: "string set" where
  "valid_grades = {''A'', ''A-'', ''B+'', ''B'', ''B-'', ''C+'', ''C'', ''C-'', ''D'', ''F''}"

section \<open>Adding records\<close>









text \<open>The records a file holds, and the uniqueness of the keys of the three stores.\<close>

definition contents :: "'a disk_file \<Rightarrow> 'a list" where
  "contents f = (case f of Absent \<Rightarrow> [] | Locked xs \<Rightarrow> xs | Data xs \<Rightarrow> xs)"



section \<open>Reports\<close>

subsection \<open>Transcript\<close>






subsection \<open>Term GPA leaderboard\<close>













section \<open>Notions of the specification and of the proofs\<close>

text \<open>
  None of the definitions of this section is part of the program: they state what the
  claims speak about (which records a store holds, which entries a report covers, the
  example stores of the scenarios) and give the loops a form to reason with.
\<close>

subsection \<open>Lookups\<close>

text \<open>The search of \<open>find_loop\<close> on the list of blocks that the loop reads.\<close>

fun first_match :: "('a list \<Rightarrow> 'k \<Rightarrow> bool) \<Rightarrow> 'k \<Rightarrow> int \<Rightarrow> 'a list list \<Rightarrow> int \<times> 'a list option" where
  "first_match pred key idx [] = (- 1, None)"
| "first_match pred key idx (b # bs) =
     (if pred b key then (idx, Some b) else first_match pred key (idx + 1) bs)"





subsection \<open>The records read from the console\<close>




subsection \<open>Example stores\<close>



subsection \<open>The transcript, as the specification words it\<close>







subsection \<open>The leaderboard, as the specification words it\<close>









section \<open>Properties of the record store\<close>

subsection \<open>Reading blocks, counting and finding\<close>

lemma read_records_short: "length rest < recSize \<Longrightarrow> read_records recSize rest = []"
  by (subst read_records.simps) (simp add: fread1_def)

lemma read_records_step:
  "0 < recSize \<Longrightarrow> recSize \<le> length rest \<Longrightarrow>
   read_records recSize rest = take recSize rest # read_records recSize (drop recSize rest)"
  by (subst read_records.simps) (simp add: fread1_def)

lemma read_records_tail:
  "0 < recSize \<Longrightarrow> length cs = n * recSize \<Longrightarrow> length tail < recSize \<Longrightarrow>
   read_records recSize (cs @ tail) = read_records recSize cs"
proof (induction n arbitrary: cs)
  case 0
  then show ?case by (simp add: read_records_short)
next
  case (Suc n)
  then have len: "recSize \<le> length cs" by simp
  have "length (drop recSize cs) = n * recSize" using Suc.prems by simp
  then have "read_records recSize (drop recSize cs @ tail) = read_records recSize (drop recSize cs)"
    using Suc.IH Suc.prems by blast
  then show ?case using len Suc.prems(1)
    by (simp add: read_records_step)
qed

lemma find_loop_None:
  "fread1 recSize rest = None \<Longrightarrow> find_loop recSize pred key idx rest = (- 1, None)"
  by (subst find_loop.simps) simp

lemma find_loop_Some:
  "fread1 recSize rest = Some (buf, rest') \<Longrightarrow>
   find_loop recSize pred key idx rest =
     (if pred buf key then (idx, Some buf) else find_loop recSize pred key (idx + 1) rest')"
  by (subst find_loop.simps) simp

lemma read_records_None: "fread1 recSize rest = None \<Longrightarrow> read_records recSize rest = []"
  by (subst read_records.simps) simp

lemma read_records_Some:
  "fread1 recSize rest = Some (buf, rest') \<Longrightarrow>
   read_records recSize rest = buf # read_records recSize rest'"
  by (subst read_records.simps) simp

lemma find_loop_first_match:
  "find_loop recSize pred key idx rest = first_match pred key idx (read_records recSize rest)"
proof (induction recSize pred key idx rest rule: find_loop.induct)
  case (1 recSize pred key idx rest)
  show ?case
  proof (cases "fread1 recSize rest")
    case None
    then show ?thesis
      by (simp add: find_loop_None read_records_None)
  next
    case (Some a)
    obtain buf rest' where a: "a = (buf, rest')" by (cases a)
    have fr: "fread1 recSize rest = Some (buf, rest')" using Some a by simp
    show ?thesis
    proof (cases "pred buf key")
      case True
      then show ?thesis by (simp add: find_loop_Some [OF fr] read_records_Some [OF fr])
    next
      case False
      have "find_loop recSize pred key (idx + 1) rest' =
            first_match pred key (idx + 1) (read_records recSize rest')"
        using "1.IH" [OF fr refl False] .
      then show ?thesis using False
        by (simp add: find_loop_Some [OF fr] read_records_Some [OF fr])
    qed
  qed
qed

lemma first_match_cong:
  "(\<forall>b \<in> set bs. pred b key = pred' b key) \<Longrightarrow>
   first_match pred key idx bs = first_match pred' key idx bs"
  by (induction bs arbitrary: idx) auto

lemma complete_part_split:
  "0 < recSize \<Longrightarrow> \<exists>tail. bs = complete_part recSize bs @ tail \<and> length tail < recSize
     \<and> length (complete_part recSize bs) = (length bs div recSize) * recSize"
proof -
  assume w: "0 < recSize"
  let ?k = "length bs div recSize * recSize"
  have k: "?k \<le> length bs" by simp
  have "length (drop ?k bs) = length bs mod recSize"
    by (simp add: minus_div_mult_eq_mod)
  then have "length (drop ?k bs) < recSize" using w by simp
  moreover have "bs = take ?k bs @ drop ?k bs" by simp
  moreover have "length (take ?k bs) = ?k" using k by simp
  ultimately show ?thesis unfolding complete_part_def by blast
qed

lemma read_records_complete_part:
  "0 < recSize \<Longrightarrow> read_records recSize bs = read_records recSize (complete_part recSize bs)"
  by (metis complete_part_split read_records_tail)



lemma length_read_records:
  "0 < recSize \<Longrightarrow> length (read_records recSize bs) = length bs div recSize"
proof (induction "length bs" arbitrary: bs rule: less_induct)
  case less
  show ?case
  proof (cases "length bs < recSize")
    case True
    then show ?thesis by (simp add: read_records_short)
  next
    case False
    then have le: "recSize \<le> length bs" by simp
    have "length (read_records recSize (drop recSize bs)) = length (drop recSize bs) div recSize"
      using less.hyps [of "drop recSize bs"] less.prems le by simp
    then show ?thesis using le less.prems
      by (simp add: read_records_step le_div_geq)
  qed
qed

lemma file_count_records_Data:
  "file_count_records (Data bs) recSize = int (length bs div recSize)"
  by (simp add: file_count_records_def fopen_rb_def zdiv_int)


lemma block_in_range:
  "0 < recSize \<Longrightarrow> (recSize \<le> length bs - m * recSize) = (m < length bs div recSize)"
proof -
  assume w: "0 < recSize"
  have "(Suc m \<le> length bs div recSize) = (Suc m * recSize \<le> length bs)"
    using w by (rule less_eq_div_iff_mult_less_eq)
  then show ?thesis using w by (auto simp: algebra_simps)
qed

lemma seek_offset_exact:
  assumes a: "- LONG_MAX - 1 \<le> index * int recSize" and b: "index * int recSize \<le> LONG_MAX"
  shows "seek_offset recSize index = index * int recSize"
proof -
  have "(word_of_int index :: 64 word) * word_of_nat recSize = word_of_int (index * int recSize)"
    by simp
  then have "seek_offset recSize index = sint (word_of_int (index * int recSize) :: 64 word)"
    by (simp only: seek_offset_def)
  also have "\<dots> = signed_take_bit 63 (index * int recSize)"
    unfolding sint_sbintrunc' by simp
  also have "\<dots> = index * int recSize"
    using a b by (intro signed_take_bit_int_eq_self) (simp_all add: LONG_MAX_def)
  finally show ?thesis .
qed

lemma seek_offset_index:
  assumes "0 \<le> index" and "index * int recSize \<le> LONG_MAX"
  shows "seek_offset recSize index = index * int recSize"
proof -
  have "0 \<le> index * int recSize" using assms(1) by simp
  then have "- LONG_MAX - 1 \<le> index * int recSize" by (simp add: LONG_MAX_def)
  then show ?thesis using assms(2) by (rule seek_offset_exact)
qed

lemma file_read_at_offset:
  "file_read_at (Data bs) recSize i =
     (if 0 \<le> seek_offset recSize i \<and> 0 < recSize \<and> nat (seek_offset recSize i) + recSize \<le> length bs
      then Some (take recSize (drop (nat (seek_offset recSize i)) bs)) else None)"
  by (auto simp: file_read_at_def fopen_rb_def fread1_def Let_def)

lemma file_read_at_Data:
  assumes "0 < recSize" and "- LONG_MAX - 1 \<le> i * int recSize" and "i * int recSize \<le> LONG_MAX"
  shows "file_read_at (Data bs) recSize i =
    (if 0 \<le> i \<and> i < int (length bs div recSize) then Some (take recSize (drop (nat i * recSize) bs))
     else None)"
proof (cases "i < 0")
  case True
  then have "i * int recSize < 0" using assms(1) by (simp add: mult_less_0_iff)
  then have "seek_offset recSize i < 0" using seek_offset_exact [OF assms(2,3)] by simp
  then show ?thesis using True by (simp add: file_read_at_def fopen_rb_def)
next
  case False
  then have nn: "\<not> i * int recSize < 0" using assms(1) by (simp add: mult_less_0_iff)
  have so: "seek_offset recSize i = i * int recSize" by (rule seek_offset_exact [OF assms(2,3)])
  have off: "nat (i * int recSize) = nat i * recSize" using False
    by (simp add: nat_mult_distrib)
  have rng: "(recSize \<le> length bs - nat i * recSize) = (nat i < length bs div recSize)"
    using assms(1) by (rule block_in_range)
  have "(nat i < length bs div recSize) = (i < int (length bs div recSize))"
    using False by auto
  then show ?thesis using False nn off rng assms(1)
    by (auto simp: file_read_at_def fopen_rb_def fread1_def Let_def so)
qed

lemma file_read_at_index:
  assumes "0 < recSize" and "0 \<le> i" and "i * int recSize \<le> LONG_MAX"
  shows "file_read_at (Data bs) recSize i =
    (if i < int (length bs div recSize) then Some (take recSize (drop (nat i * recSize) bs))
     else None)"
proof -
  have "0 \<le> i * int recSize" using assms(2) by simp
  then have "- LONG_MAX - 1 \<le> i * int recSize" by (simp add: LONG_MAX_def)
  from file_read_at_Data [OF assms(1) this assms(3), of bs] show ?thesis using assms(2) by simp
qed

lemma index_fits:
  assumes "0 \<le> i" and "i < int (length bs div recSize)" and "int (length bs) \<le> LONG_MAX"
  shows "i * int recSize \<le> LONG_MAX"
proof -
  have "nat i * recSize \<le> length bs div recSize * recSize"
    using assms(1,2) by (intro mult_le_mono1) simp
  also have "\<dots> \<le> length bs" by simp
  finally have le: "nat i * recSize \<le> length bs" .
  have "i * int recSize = int (nat i * recSize)" using assms(1) by simp
  also have "\<dots> \<le> int (length bs)" using le by (simp only: of_nat_le_iff)
  finally show ?thesis using assms(3) by simp
qed


lemma file_find_first_Data:
  "file_find_first (Data bs) recSize pred key = first_match pred key 0 (read_records recSize bs)"
  by (simp add: file_find_first_def fopen_rb_def find_loop_first_match)

lemma first_match_range:
  "first_match pred key idx bs = (r, out) \<Longrightarrow>
   (r = - 1 \<and> out = None) \<or> (idx \<le> r \<and> r < idx + int (length bs) \<and> (\<exists>b. out = Some b \<and> pred b key))"
proof (induction bs arbitrary: idx)
  case Nil
  then show ?case by simp
next
  case (Cons b bs)
  show ?case
  proof (cases "pred b key")
    case True
    then show ?thesis using Cons.prems by auto
  next
    case False
    then have "first_match pred key (idx + 1) bs = (r, out)" using Cons.prems by simp
    from Cons.IH [OF this] show ?thesis by auto
  qed
qed


lemma find_first_below_count:
  assumes w: "0 < recSize"
  shows "fst (file_find_first (Data bs) recSize pred key) < file_count_records (Data bs) recSize"
proof -
  obtain r out where ro: "first_match pred key 0 (read_records recSize bs) = (r, out)"
    by (cases "first_match pred key 0 (read_records recSize bs)")
  from first_match_range [OF ro] have "r = - 1 \<or> r < int (length (read_records recSize bs))"
    by auto
  then have "r < int (length bs div recSize)"
    using w by (auto simp: length_read_records)
  then show ?thesis using ro
    by (simp add: file_find_first_Data file_count_records_Data)
qed

lemma read_at_complete_part:
  assumes w: "0 < recSize"
    and lo: "- LONG_MAX - 1 \<le> i * int recSize" and hi: "i * int recSize \<le> LONG_MAX"
  shows "file_read_at (Data (complete_part recSize bs)) recSize i = file_read_at (Data bs) recSize i"
proof -
  have len: "length (complete_part recSize bs) = length bs div recSize * recSize"
    by (simp add: complete_part_def)
  then have cnt: "length (complete_part recSize bs) div recSize = length bs div recSize"
    using w by simp
  show ?thesis
  proof (cases "0 \<le> i \<and> i < int (length bs div recSize)")
    case True
    then have "nat i < length bs div recSize" by auto
    then have "Suc (nat i) * recSize \<le> length bs div recSize * recSize"
      using Suc_leI mult_le_mono1 by blast
    then have "nat i * recSize + recSize \<le> length bs div recSize * recSize" by simp
    then have "take recSize (drop (nat i * recSize) (complete_part recSize bs)) =
          take recSize (drop (nat i * recSize) bs)"
      unfolding complete_part_def by (simp add: drop_take)
    then show ?thesis using True cnt by (simp add: file_read_at_Data [OF w lo hi])
  next
    case False
    then have "\<not> (0 \<le> i \<and> i < int (length (complete_part recSize bs) div recSize))"
      using cnt by simp
    then show ?thesis using False by (simp only: file_read_at_Data [OF w lo hi] if_False)
  qed
qed


text \<open>
  Claim C8, as the code has it. \<open>count()\<close> is the size of the file divided by the record
  width, rounded down, and 0 when the file does not exist. When the file exists and
  cannot be opened the code returns 0 as well: the return type has no failure value, so
  that case is not told apart from an empty or missing store.
\<close>

theorem count_records_outcomes:
  "0 < recSize \<Longrightarrow>
   file_count_records (Data bs) recSize = int (length bs div recSize) \<and>
   file_count_records (Absent :: 'a disk_file) recSize = 0 \<and>
   file_count_records (Locked bs) recSize = 0"
  by (simp add: file_count_records_Data) (simp add: file_count_records_def fopen_rb_def)

theorem count_records_outcomes_witness:
  "file_count_records (Data [1, 2, 3, 4, 5 :: 8 word]) 2 = 2 \<and>
   file_count_records (Absent :: 8 word disk_file) 2 = 0 \<and>
   file_count_records (Locked [1, 2, 3, 4, 5 :: 8 word]) 2 = 0"
  using count_records_outcomes [of 2 "[1, 2, 3, 4, 5 :: 8 word]"] by simp

text \<open>
  Claim C8 as stated asks for a failure distinct from 0 when the file exists and cannot
  be opened. For such a file holding two records the code returns 0, the value it
  returns for a missing file.
\<close>

theorem count_locked_counterexample:
  "file_count_records (Locked [1, 2, 3, 4 :: 8 word]) 2 = 0 \<and>
   file_count_records (Locked [1, 2, 3, 4 :: 8 word]) 2 = file_count_records (Absent :: 8 word disk_file) 2"
  by (simp add: file_count_records_def fopen_rb_def)

text \<open>
  Claim C9, as the code has it: a trailing partial record is invisible to \<open>count\<close>,
  to \<open>findFirst\<close> and to \<open>readAt\<close> at every index whose byte offset is in the range of
  \<^verbatim>\<open>long\<close>. For every file content \<open>bs\<close>, \<open>count()\<close> is the floor of size by width;
  \<open>findFirst\<close> gives the same result as on the file cut back to its complete records, even
  for a predicate that agrees with the given one only on the complete records (so the
  tail is never tested), and the index it returns is below the count; \<open>readAt\<close> gives the
  same result as on the file cut back to its complete records at every index \<open>i\<close> with
  \<open>i * recSize\<close> between \<^verbatim>\<open>LONG_MIN\<close> and \<^verbatim>\<open>LONG_MAX\<close>, where the offset does not wrap.
\<close>

theorem partial_tail_invisible:
  "0 < recSize \<Longrightarrow>
   file_count_records (Data bs) recSize = int (length bs div recSize) \<and>
   file_count_records (Data (complete_part recSize bs)) recSize = file_count_records (Data bs) recSize \<and>
   ((\<forall>b \<in> set (read_records recSize (complete_part recSize bs)). pred b key = pred' b key) \<longrightarrow>
      file_find_first (Data bs) recSize pred key =
      file_find_first (Data (complete_part recSize bs)) recSize pred' key) \<and>
   fst (file_find_first (Data bs) recSize pred key) < file_count_records (Data bs) recSize \<and>
   (- LONG_MAX - 1 \<le> i * int recSize \<and> i * int recSize \<le> LONG_MAX \<longrightarrow>
      file_read_at (Data bs) recSize i = file_read_at (Data (complete_part recSize bs)) recSize i)"
proof -
  assume w: "0 < recSize"
  have c1: "file_count_records (Data bs) recSize = int (length bs div recSize)"
    by (rule file_count_records_Data)
  have "length (complete_part recSize bs) = length bs div recSize * recSize"
    by (simp add: complete_part_def)
  then have c2: "file_count_records (Data (complete_part recSize bs)) recSize = file_count_records (Data bs) recSize"
    using w by (simp add: file_count_records_Data)
  have c3: "(\<forall>b \<in> set (read_records recSize (complete_part recSize bs)). pred b key = pred' b key) \<longrightarrow>
      file_find_first (Data bs) recSize pred key =
      file_find_first (Data (complete_part recSize bs)) recSize pred' key"
  proof
    assume agree: "\<forall>b \<in> set (read_records recSize (complete_part recSize bs)). pred b key = pred' b key"
    have "file_find_first (Data bs) recSize pred key =
          first_match pred key 0 (read_records recSize (complete_part recSize bs))"
      using read_records_complete_part [OF w, of bs] by (simp add: file_find_first_Data)
    also have "\<dots> = first_match pred' key 0 (read_records recSize (complete_part recSize bs))"
      using agree by (rule first_match_cong)
    finally show "file_find_first (Data bs) recSize pred key =
      file_find_first (Data (complete_part recSize bs)) recSize pred' key"
      by (simp add: file_find_first_Data)
  qed
  have c4: "fst (file_find_first (Data bs) recSize pred key) < file_count_records (Data bs) recSize"
    using w by (rule find_first_below_count)
  have c5: "- LONG_MAX - 1 \<le> i * int recSize \<and> i * int recSize \<le> LONG_MAX \<longrightarrow>
      file_read_at (Data bs) recSize i = file_read_at (Data (complete_part recSize bs)) recSize i"
    using read_at_complete_part [OF w, of i bs] by simp
  show ?thesis using c1 c2 c3 c4 c5 by (intro conjI)
qed

theorem partial_tail_invisible_witness:
  "file_count_records (Data [1, 2, 3, 4, 5 :: 8 word]) 2 = 2 \<and>
   file_find_first (Data [1, 2, 3, 4, 5 :: 8 word]) 2 (\<lambda>b k. last b = k) 5 = (- 1, None) \<and>
   file_find_first (Data [1, 2, 3, 4, 5 :: 8 word]) 2 (\<lambda>b k. last b = k) 4 = (1, Some [3, 4]) \<and>
   file_read_at (Data [1, 2, 3, 4, 5 :: 8 word]) 2 2 = None \<and>
   file_read_at (Data [1, 2, 3, 4, 5 :: 8 word]) 2 1 = Some [3, 4]"
proof -
  have w: "0 < (2 :: nat)" by simp
  have cp: "complete_part 2 [1, 2, 3, 4, 5 :: 8 word] = [1, 2, 3, 4]"
    by (simp add: complete_part_def)
  have rr: "read_records 2 [1, 2, 3, 4 :: 8 word] = [[1, 2], [3, 4]]"
    by (simp add: read_records_step read_records_short)
  have ff: "\<And>k. file_find_first (Data [1, 2, 3, 4 :: 8 word]) 2 (\<lambda>b k. last b = k) k =
     first_match (\<lambda>b k. last b = k) k 0 [[1, 2], [3, 4]]"
    by (simp add: file_find_first_Data rr)
  have ra: "file_read_at (Data [1, 2, 3, 4 :: 8 word]) 2 2 = None"
    "file_read_at (Data [1, 2, 3, 4 :: 8 word]) 2 1 = Some [3, 4]"
    by (simp_all add: file_read_at_Data LONG_MAX_def)
  show ?thesis
    using partial_tail_invisible [OF w, of "[1, 2, 3, 4, 5 :: 8 word]" "\<lambda>b k. last b = k" 5 "\<lambda>b k. last b = k" 2]
      partial_tail_invisible [OF w, of "[1, 2, 3, 4, 5 :: 8 word]" "\<lambda>b k. last b = k" 4 "\<lambda>b k. last b = k" 1]
    by (simp add: cp ff ra LONG_MAX_def)
qed

text \<open>
  Claim C9 as stated fails for \<open>readAt\<close> and for the operations that write. With records
  of three cells, the file \<open>[1, 2, 3, 4, 5]\<close> has one record and the partial tail
  \<open>[4, 5]\<close>; at index 6148914691236517206 the offset \<open>index * 3\<close> is \<open>2 ^ 64 + 2\<close>, which
  wraps to 2, and \<open>readAt\<close> returns the block \<open>[3, 4, 5]\<close> with both cells of the tail
  (on the file without the tail it returns nothing). And after an append to the file
  \<open>[1, 2, 3]\<close> of records of two cells, whose tail is \<open>[3]\<close>, the cell of the tail is read
  as the first cell of record 1 by \<open>readAt\<close> and tested by \<open>findFirst\<close>.
\<close>

theorem partial_tail_read_counterexample:
  "complete_part 3 [1, 2, 3, 4, 5 :: 8 word] = [1, 2, 3] \<and>
   file_read_at (Data [1, 2, 3, 4, 5 :: 8 word]) 3 6148914691236517206 = Some [3, 4, 5] \<and>
   file_read_at (Data [1, 2, 3 :: 8 word]) 3 6148914691236517206 = None \<and>
   complete_part 2 [1, 2, 3 :: 8 word] = [1, 2] \<and>
   file_append (Data [1, 2, 3 :: 8 word]) 2 [5, 6] = (1, Data [1, 2, 3, 5, 6]) \<and>
   file_read_at (Data [1, 2, 3, 5, 6 :: 8 word]) 2 1 = Some [3, 5] \<and>
   file_find_first (Data [1, 2, 3, 5, 6 :: 8 word]) 2 (\<lambda>b k. hd b = k) 3 = (1, Some [3, 5])"
proof -
  have so: "seek_offset 3 6148914691236517206 = 2" "seek_offset 2 1 = 2"
    by (simp_all add: seek_offset_def)
  have rr: "read_records 2 [1, 2, 3, 5, 6 :: 8 word] = [[1, 2], [3, 5]]"
    by (simp add: read_records_step read_records_short)
  show ?thesis
    by (simp add: complete_part_def file_read_at_offset so file_append_def fopen_ab_def
        fwrite1_end_def file_find_first_Data rr)
qed

subsection \<open>Appending\<close>

lemma file_append_cases:
  "file_append f recSize r =
     (case f of
        Locked xs \<Rightarrow> (0, f)
      | Absent \<Rightarrow> (if recSize = 0 then (0, Data []) else (1, Data (take recSize r)))
      | Data bs \<Rightarrow> (if recSize = 0 then (0, Data bs) else (1, Data (bs @ take recSize r))))"
  by (cases f) (simp_all add: file_append_def fopen_ab_def fwrite1_end_def)

lemma file_count_records_contents:
  "\<forall>xs. f \<noteq> Locked xs \<Longrightarrow> file_count_records f recSize = int (length (contents f) div recSize)"
  by (cases f) (auto simp: file_count_records_def fopen_rb_def contents_def zdiv_int)

lemma file_read_at_Absent: "file_read_at Absent recSize i = None"
  by (simp add: file_read_at_def fopen_rb_def)

text \<open>
  Claim C5, as the code has it. For a store whose file is missing or holds only complete
  records, a successful \<open>append(r)\<close> returns the flag 1 (the code returns no index),
  creates the file if need be and writes \<open>r\<close> at its end; afterwards \<open>count()\<close> is one
  more than before, \<open>readAt\<close> at the prior count gives \<open>r\<close>, and every record below
  it, at the indices from 0 to the prior count, reads as before. The size of the file
  after the append is a \<^verbatim>\<open>long\<close>, as the size of every file is.
\<close>

theorem append_adds_last_record:
  "0 < recSize \<Longrightarrow> length r = recSize \<Longrightarrow> length (contents f) mod recSize = 0 \<Longrightarrow>
   int (length (contents f)) + int recSize \<le> LONG_MAX \<Longrightarrow>
   file_append f recSize r = (ok, f') \<Longrightarrow> ok \<noteq> 0 \<Longrightarrow>
   ok = 1 \<and>
   f' = Data (contents f @ r) \<and>
   file_count_records f' recSize = file_count_records f recSize + 1 \<and>
   file_read_at f' recSize (file_count_records f recSize) = Some r \<and>
   (\<forall>i. 0 \<le> i \<and> i < file_count_records f recSize \<longrightarrow>
        file_read_at f' recSize i = file_read_at f recSize i)"
proof -
  assume w: "0 < recSize" and lr: "length r = recSize"
    and al: "length (contents f) mod recSize = 0"
    and fits': "int (length (contents f)) + int recSize \<le> LONG_MAX"
    and ap: "file_append f recSize r = (ok, f')" and ok: "ok \<noteq> 0"
  have fits: "int (length (contents f)) \<le> LONG_MAX" using fits' by simp
  have nl: "\<And>xs. f \<noteq> Locked xs" using ap ok by (auto simp: file_append_cases)
  have ok1: "ok = 1" using ap ok w by (cases f) (auto simp: file_append_cases)
  have f': "f' = Data (contents f @ r)"
    using ap ok w lr by (cases f) (auto simp: file_append_cases contents_def)
  let ?n = "length (contents f) div recSize"
  have len: "length (contents f) = ?n * recSize" using al by (simp add: mod_0_imp_dvd)
  have cnt: "file_count_records f recSize = int ?n"
    using nl by (simp add: file_count_records_contents)
  have n1: "length (contents f @ r) div recSize = ?n + 1"
    using w lr len by (simp add: div_add1_eq)
  then have cnt': "file_count_records f' recSize = file_count_records f recSize + 1"
    using cnt f' by (simp add: file_count_records_Data)
  have "int ?n * int recSize = int (length (contents f))" using len by (metis of_nat_mult)
  then have nfit: "int ?n * int recSize \<le> LONG_MAX" using fits by simp
  have "take recSize (drop (?n * recSize) (contents f @ r)) = r"
    using lr len by simp
  then have rd: "file_read_at f' recSize (file_count_records f recSize) = Some r"
    using cnt f' n1 by (simp add: file_read_at_index [OF w _ nfit])
  have old: "\<forall>i. 0 \<le> i \<and> i < file_count_records f recSize \<longrightarrow>
               file_read_at f' recSize i = file_read_at f recSize i"
  proof (intro allI impI)
    fix i assume "0 \<le> i \<and> i < file_count_records f recSize"
    then have i0: "0 \<le> i" and i: "i < file_count_records f recSize" by simp_all
    show "file_read_at f' recSize i = file_read_at f recSize i"
    proof (cases f)
      case Absent
      then show ?thesis using i i0
        by (simp add: file_count_records_def fopen_rb_def)
    next
      case (Locked xs)
      then show ?thesis using nl by simp
    next
      case (Data bs)
      then have c: "contents f = bs" by (simp add: contents_def)
      have ifit: "i * int recSize \<le> LONG_MAX"
        using i0 i cnt c fits by (intro index_fits [of i bs]) simp_all
      have "nat i < ?n" using i i0 cnt by auto
      then have "Suc (nat i) * recSize \<le> ?n * recSize"
        using Suc_leI mult_le_mono1 by blast
      then have "nat i * recSize + recSize \<le> length bs" using len c by simp
      then have "take recSize (drop (nat i * recSize) (bs @ r)) = take recSize (drop (nat i * recSize) bs)"
        by simp
      then show ?thesis
        using Data f' c i cnt n1
        by (simp add: file_read_at_index [OF w i0 ifit])
    qed
  qed
  show ?thesis using ok1 f' cnt' rd old by (intro conjI)
qed

theorem append_adds_last_record_witness:
  "file_append (Data [1, 2, 3, 4 :: 8 word]) 2 [5, 6] = (1, Data [1, 2, 3, 4, 5, 6]) \<and>
   file_count_records (Data [1, 2, 3, 4, 5, 6 :: 8 word]) 2 = 3 \<and>
   file_read_at (Data [1, 2, 3, 4, 5, 6 :: 8 word]) 2 2 = Some [5, 6]"
proof -
  have ap: "file_append (Data [1, 2, 3, 4 :: 8 word]) 2 [5, 6] = (1, Data [1, 2, 3, 4, 5, 6])"
    by (simp add: file_append_cases)
  have cnt: "file_count_records (Data [1, 2, 3, 4 :: 8 word]) 2 = 2"
    by (simp add: file_count_records_Data)
  have "(1 :: int) = 1 \<and>
   Data [1, 2, 3, 4, 5, 6 :: 8 word] = Data (contents (Data [1, 2, 3, 4 :: 8 word]) @ [5, 6]) \<and>
   file_count_records (Data [1, 2, 3, 4, 5, 6 :: 8 word]) 2 = file_count_records (Data [1, 2, 3, 4 :: 8 word]) 2 + 1 \<and>
   file_read_at (Data [1, 2, 3, 4, 5, 6 :: 8 word]) 2 (file_count_records (Data [1, 2, 3, 4 :: 8 word]) 2) = Some [5, 6] \<and>
   (\<forall>i. 0 \<le> i \<and> i < file_count_records (Data [1, 2, 3, 4 :: 8 word]) 2 \<longrightarrow>
      file_read_at (Data [1, 2, 3, 4, 5, 6 :: 8 word]) 2 i = file_read_at (Data [1, 2, 3, 4 :: 8 word]) 2 i)"
    by (rule append_adds_last_record [OF _ _ _ _ ap]) (simp_all add: contents_def LONG_MAX_def)
  then show ?thesis using ap cnt by simp
qed

text \<open>
  Claim C5 as stated fails twice. Appending to a store of two records returns 1, not
  the index 2. And on a file with a partial trailing record (three cells, width 2) the
  appended record is not what \<open>readAt\<close> gives at the prior count.
\<close>

theorem append_returns_flag_counterexample:
  "fst (file_append (Data [1, 2, 3, 4 :: 8 word]) 2 [5, 6])
     \<noteq> file_count_records (Data [1, 2, 3, 4 :: 8 word]) 2 \<and>
   file_append (Data [1, 2, 3 :: 8 word]) 2 [5, 6] = (1, Data [1, 2, 3, 5, 6]) \<and>
   file_read_at (Data [1, 2, 3, 5, 6 :: 8 word]) 2 (file_count_records (Data [1, 2, 3 :: 8 word]) 2)
     \<noteq> Some [5, 6]"
  by (simp add: file_append_cases file_count_records_Data file_read_at_Data LONG_MAX_def)


subsection \<open>Overwriting\<close>

lemma fwrite1_at_result:
  assumes w: "0 < recSize" and lr: "length r = recSize"
  obtains bs' where "fwrite1_at recSize r pos bs = (True, bs')"
    and "length bs' = max (length bs) (pos + recSize)"
    and "take recSize (drop pos bs') = r"
    and "\<And>k. k < length bs \<Longrightarrow> k < pos \<or> pos + recSize \<le> k \<Longrightarrow> bs' ! k = bs ! k"
proof -
  define padded where "padded = bs @ replicate (pos - length bs) 0"
  define pre where "pre = take pos padded"
  define post where "post = drop (pos + recSize) padded"
  have lp: "length padded = max (length bs) pos" by (auto simp: padded_def)
  have lpre: "length pre = pos" using lp by (simp add: pre_def)
  have lpost: "length post = max (length bs) pos - (pos + recSize)" using lp by (simp add: post_def)
  have pk: "padded ! k = bs ! k" if "k < length bs" for k
    using that by (simp add: padded_def nth_append)
  have 1: "fwrite1_at recSize r pos bs = (True, pre @ r @ post)"
    using w lr by (simp add: fwrite1_at_def Let_def padded_def pre_def post_def)
  have 2: "length (pre @ r @ post) = max (length bs) (pos + recSize)"
    using lr lpre lpost by auto
  have 3: "take recSize (drop pos (pre @ r @ post)) = r"
    using lr lpre by simp
  have 4: "(pre @ r @ post) ! k = bs ! k" if k: "k < length bs" and out: "k < pos \<or> pos + recSize \<le> k" for k
  proof (cases "k < pos")
    case True
    then have "(pre @ r @ post) ! k = pre ! k" using lpre by (simp add: nth_append)
    also have "\<dots> = padded ! k" using True by (simp add: pre_def)
    also have "\<dots> = bs ! k" using k by (rule pk)
    finally show ?thesis .
  next
    case False
    then have ge: "pos + recSize \<le> k" using out by simp
    have "(pre @ r @ post) ! k = (r @ post) ! (k - pos)"
      using ge lpre by (simp add: nth_append)
    also have "\<dots> = post ! (k - pos - recSize)"
    proof -
      have "\<not> k - pos < length r" using ge lr by linarith
      then show ?thesis using lr by (simp add: nth_append)
    qed
    also have "\<dots> = padded ! k" using ge k lp by (simp add: post_def)
    also have "\<dots> = bs ! k" using k by (rule pk)
    finally show ?thesis .
  qed
  show thesis using that [OF 1 2 3 4] by blast
qed


lemma take_drop_eqI:
  assumes "k + w \<le> length xs" "k + w \<le> length ys"
    and "\<And>i. i < w \<Longrightarrow> ys ! (k + i) = xs ! (k + i)"
  shows "take w (drop k ys) = take w (drop k xs)"
proof (rule nth_equalityI)
  show "length (take w (drop k ys)) = length (take w (drop k xs))" using assms(1,2) by simp
next
  fix i assume "i < length (take w (drop k ys))"
  then have i: "i < w" by simp
  then show "take w (drop k ys) ! i = take w (drop k xs) ! i"
    using assms by simp
qed

lemma max_div_mult:
  assumes "0 < (w :: nat)"
  shows "max a (m * w) div w = max (a div w) m"
proof (cases "a \<le> m * w")
  case True
  then have "a div w \<le> m * w div w" by (rule div_le_mono)
  then have "a div w \<le> m" using assms by simp
  then show ?thesis using True assms by (simp add: max_def)
next
  case False
  then have "m * w div w \<le> a div w" by (intro div_le_mono) simp
  then have "m \<le> a div w" using assms by simp
  then show ?thesis using False assms by (simp add: max_def)
qed

lemma file_write_at_fails:
  "seek_offset recSize index < 0 \<or> (\<forall>bs. f \<noteq> Data bs) \<Longrightarrow> file_write_at f recSize index r = (0, f)"
  by (cases f) (auto simp: file_write_at_def fopen_rb_def fopen_rb_plus_def)

lemma file_write_at_Data:
  assumes w: "0 < recSize" and lr: "length r = recSize" and i0: "0 \<le> index"
    and ifit: "(index + 1) * int recSize \<le> LONG_MAX" and fits: "int (length bs) \<le> LONG_MAX"
  shows "\<exists>bs'. file_write_at (Data bs) recSize index r = (1, Data bs') \<and>
        length bs' = max (length bs) ((nat index + 1) * recSize) \<and>
        file_count_records (Data bs') recSize = max (file_count_records (Data bs) recSize) (index + 1) \<and>
        file_read_at (Data bs') recSize index = Some r \<and>
        (\<forall>j. 0 \<le> j \<and> j \<noteq> index \<and> j < file_count_records (Data bs) recSize \<longrightarrow>
             file_read_at (Data bs') recSize j = file_read_at (Data bs) recSize j)"
proof -
  define pos where "pos = nat index * recSize"
  have "index * int recSize \<le> (index + 1) * int recSize" by (simp add: algebra_simps)
  then have ifit0: "index * int recSize \<le> LONG_MAX" using ifit by simp
  have so: "seek_offset recSize index = index * int recSize"
    using i0 ifit0 by (rule seek_offset_index)
  have off: "nat (index * int recSize) = pos" using i0 by (simp add: pos_def nat_mult_distrib)
  have nn: "\<not> index * int recSize < 0" using i0 by (simp add: mult_less_0_iff)
  obtain bs' where fw: "fwrite1_at recSize r pos bs = (True, bs')"
    and len: "length bs' = max (length bs) (pos + recSize)"
    and rd: "take recSize (drop pos bs') = r"
    and same: "\<And>k. k < length bs \<Longrightarrow> k < pos \<or> pos + recSize \<le> k \<Longrightarrow> bs' ! k = bs ! k"
    using fwrite1_at_result [OF w lr, of pos bs] by blast
  have 1: "file_write_at (Data bs) recSize index r = (1, Data bs')"
    using nn off fw by (simp add: file_write_at_def fopen_rb_def fopen_rb_plus_def so)
  have 2: "length bs' = max (length bs) ((nat index + 1) * recSize)"
    using len by (simp add: pos_def)
  have dv: "length bs' div recSize = max (length bs div recSize) (nat index + 1)"
  proof -
    have "max (length bs) ((nat index + 1) * recSize) div recSize =
          max (length bs div recSize) (nat index + 1)"
      using w by (rule max_div_mult)
    then show ?thesis using 2 by (simp only:)
  qed
  have 3: "file_count_records (Data bs') recSize = max (file_count_records (Data bs) recSize) (index + 1)"
  proof -
    have "int (max (length bs div recSize) (nat index + 1)) = max (int (length bs div recSize)) (index + 1)"
      using i0 by (simp add: max_def) linarith
    then show ?thesis using dv by (simp add: file_count_records_Data)
  qed
  have 4: "file_read_at (Data bs') recSize index = Some r"
    using i0 dv rd by (simp add: file_read_at_index [OF w i0 ifit0] pos_def)
  have 5: "file_read_at (Data bs') recSize j = file_read_at (Data bs) recSize j"
    if j: "0 \<le> j" "j \<noteq> index" "j < file_count_records (Data bs) recSize" for j
  proof -
    have jc: "nat j < length bs div recSize" using j(1,3) by (simp add: file_count_records_Data)
    have jfit: "j * int recSize \<le> LONG_MAX"
      using j(1) jc fits by (intro index_fits [of j bs]) simp_all
    have "Suc (nat j) * recSize \<le> length bs div recSize * recSize"
      using jc Suc_leI mult_le_mono1 by blast
    then have "nat j * recSize + recSize \<le> length bs div recSize * recSize" by simp
    moreover have "length bs div recSize * recSize \<le> length bs" by simp
    ultimately have inb: "nat j * recSize + recSize \<le> length bs"
      by (rule le_trans)
    have inb': "nat j * recSize + recSize \<le> length bs'" using inb len by simp
    have out: "nat j * recSize + i < pos \<or> pos + recSize \<le> nat j * recSize + i" if "i < recSize" for i
    proof (cases "nat j < nat index")
      case True
      then have "Suc (nat j) * recSize \<le> nat index * recSize"
        using Suc_leI mult_le_mono1 by blast
      then show ?thesis using that by (simp add: pos_def)
    next
      case False
      then have "nat index < nat j" using j(1,2) i0 by auto
      then have "Suc (nat index) * recSize \<le> nat j * recSize"
        using Suc_leI mult_le_mono1 by blast
      then show ?thesis by (simp add: pos_def)
    qed
    have "take recSize (drop (nat j * recSize) bs') = take recSize (drop (nat j * recSize) bs)"
    proof (rule take_drop_eqI [OF inb inb'])
      fix i assume i: "i < recSize"
      have "nat j * recSize + i < length bs" using inb i by simp
      then show "bs' ! (nat j * recSize + i) = bs ! (nat j * recSize + i)"
        using same out [OF i] by blast
    qed
    moreover have "j < int (length bs' div recSize)" using jc dv j(1) by simp
    ultimately show ?thesis using jc j(1) by (simp add: file_read_at_index [OF w j(1) jfit])
  qed
  show ?thesis using 1 2 3 4 5 by blast
qed


text \<open>
  Claim C6, as the code has it. \<open>readAt\<close> fails at every index from the count on whose
  byte offset \<open>index * recSize\<close> is at most \<^verbatim>\<open>LONG_MAX\<close>. \<open>writeAt\<close> has no bounds check:
  it fails, leaving the file as it is, only for a file that cannot be opened or when the
  offset handed to \<^verbatim>\<open>fseek\<close> is negative, as it is for a negative index whose offset is
  not below \<^verbatim>\<open>LONG_MIN\<close>. At every index from 0 on whose record ends at or before
  \<^verbatim>\<open>LONG_MAX\<close> it returns 1 and writes the record at cell \<open>index * recSize\<close> of an
  existing file, so that the file grows to \<open>index + 1\<close> records when the index is at or
  past the count. The record written is what \<open>readAt\<close> then gives at that index, and the
  other records below the old count read as before.
\<close>

theorem read_at_checked_write_at_unchecked:
  "0 < recSize \<Longrightarrow> length r = recSize \<Longrightarrow>
   (file_count_records f recSize \<le> index \<and> index * int recSize \<le> LONG_MAX \<longrightarrow>
      file_read_at f recSize index = None) \<and>
   ((\<forall>bs. f \<noteq> Data bs) \<or> seek_offset recSize index < 0 \<longrightarrow>
      file_write_at f recSize index r = (0, f)) \<and>
   (index < 0 \<and> - LONG_MAX - 1 \<le> index * int recSize \<longrightarrow> seek_offset recSize index < 0) \<and>
   (0 \<le> index \<and> (index + 1) * int recSize \<le> LONG_MAX \<and> int (length bs) \<le> LONG_MAX \<longrightarrow>
      (\<exists>bs'. file_write_at (Data bs) recSize index r = (1, Data bs') \<and>
        length bs' = max (length bs) ((nat index + 1) * recSize) \<and>
        file_count_records (Data bs') recSize = max (file_count_records (Data bs) recSize) (index + 1) \<and>
        file_read_at (Data bs') recSize index = Some r \<and>
        (\<forall>j. 0 \<le> j \<and> j \<noteq> index \<and> j < file_count_records (Data bs) recSize \<longrightarrow>
             file_read_at (Data bs') recSize j = file_read_at (Data bs) recSize j)))"
proof -
  assume w: "0 < recSize" and lr: "length r = recSize"
  have a: "file_count_records f recSize \<le> index \<and> index * int recSize \<le> LONG_MAX \<longrightarrow>
      file_read_at f recSize index = None"
  proof (cases f)
    case (Data bs)
    show ?thesis
    proof
      assume h: "file_count_records f recSize \<le> index \<and> index * int recSize \<le> LONG_MAX"
      then have "int (length bs div recSize) \<le> index" using Data by (simp add: file_count_records_Data)
      moreover from this have "0 \<le> index" by simp
      ultimately show "file_read_at f recSize index = None"
        using Data h by (simp add: file_read_at_index [OF w])
    qed
  qed (simp_all add: file_read_at_def fopen_rb_def)
  have b: "(\<forall>bs. f \<noteq> Data bs) \<or> seek_offset recSize index < 0 \<longrightarrow>
      file_write_at f recSize index r = (0, f)"
    using file_write_at_fails [of recSize index f r] by blast
  have b': "index < 0 \<and> - LONG_MAX - 1 \<le> index * int recSize \<longrightarrow> seek_offset recSize index < 0"
  proof
    assume h: "index < 0 \<and> - LONG_MAX - 1 \<le> index * int recSize"
    then have neg: "index * int recSize < 0" using w by (simp add: mult_less_0_iff)
    then have "index * int recSize \<le> LONG_MAX" by (simp add: LONG_MAX_def)
    then have "seek_offset recSize index = index * int recSize"
      using h by (intro seek_offset_exact) simp_all
    then show "seek_offset recSize index < 0" using neg by simp
  qed
  have c: "0 \<le> index \<and> (index + 1) * int recSize \<le> LONG_MAX \<and> int (length bs) \<le> LONG_MAX \<longrightarrow>
      (\<exists>bs'. file_write_at (Data bs) recSize index r = (1, Data bs') \<and>
        length bs' = max (length bs) ((nat index + 1) * recSize) \<and>
        file_count_records (Data bs') recSize = max (file_count_records (Data bs) recSize) (index + 1) \<and>
        file_read_at (Data bs') recSize index = Some r \<and>
        (\<forall>j. 0 \<le> j \<and> j \<noteq> index \<and> j < file_count_records (Data bs) recSize \<longrightarrow>
             file_read_at (Data bs') recSize j = file_read_at (Data bs) recSize j))"
    using file_write_at_Data [OF w lr] by blast
  show ?thesis using a b b' c by (intro conjI)
qed

lemma file_write_at_eval:
  "0 \<le> seek_offset recSize index \<Longrightarrow> 0 < recSize \<Longrightarrow>
   file_write_at (Data bs) recSize index r =
     (1, Data (take (nat (seek_offset recSize index))
                 (bs @ replicate (nat (seek_offset recSize index) - length bs) 0) @
               take recSize r @
               drop (nat (seek_offset recSize index) + recSize)
                 (bs @ replicate (nat (seek_offset recSize index) - length bs) 0)))"
  by (simp add: file_write_at_def fopen_rb_def fopen_rb_plus_def fwrite1_at_def Let_def)

theorem read_at_checked_write_at_unchecked_witness:
  "file_read_at (Data [1, 2 :: 8 word]) 2 1 = None \<and>
   file_write_at (Absent :: 8 word disk_file) 2 1 [3, 4] = (0, Absent) \<and>
   file_write_at (Data [1, 2, 3, 4 :: 8 word]) 2 (- 1) [5, 6] = (0, Data [1, 2, 3, 4]) \<and>
   file_write_at (Data [1, 2, 3, 4 :: 8 word]) 2 0 [5, 6] = (1, Data [5, 6, 3, 4])"
proof -
  have so: "seek_offset 2 0 = 0" by (simp add: seek_offset_def)
  show ?thesis
    using read_at_checked_write_at_unchecked [of 2 "[3, 4 :: 8 word]" "Data [1, 2]" 1 "[1, 2]"]
      read_at_checked_write_at_unchecked [of 2 "[3, 4 :: 8 word]" Absent 1 "[1, 2]"]
      read_at_checked_write_at_unchecked [of 2 "[5, 6 :: 8 word]" "Data [1, 2, 3, 4]" "- 1" "[1, 2, 3, 4]"]
      read_at_checked_write_at_unchecked [of 2 "[5, 6 :: 8 word]" "Data [1, 2, 3, 4]" 0 "[1, 2, 3, 4]"]
    by (simp add: file_count_records_Data file_write_at_eval so LONG_MAX_def)
qed

text \<open>
  Claim C6 as stated says that \<open>writeAt\<close> fails at an index at or past the count and
  never extends the file, and that \<open>readAt\<close> fails at every index at or past the count.
  On a store of one record, \<open>writeAt\<close> at index 1 and at index 2 returns 1 and the file
  grows. With records of four cells, the offset of index \<open>2 ^ 62\<close> is \<open>2 ^ 64\<close>, which
  wraps to 0: \<open>readAt\<close> at that index of a store of one record returns record 0. With
  records of two cells the offset of index \<^verbatim>\<open>LONG_MIN\<close> wraps to 0 as well, and
  \<open>writeAt\<close> at that negative index overwrites record 0.
\<close>

theorem write_at_extends_counterexample:
  "file_count_records (Data [1, 2 :: 8 word]) 2 \<le> 1 \<and>
   file_write_at (Data [1, 2 :: 8 word]) 2 1 [3, 4] = (1, Data [1, 2, 3, 4]) \<and>
   file_count_records (Data [1, 2 :: 8 word]) 2 \<le> 2 \<and>
   file_write_at (Data [1, 2 :: 8 word]) 2 2 [3, 4] = (1, Data [1, 2, 0, 0, 3, 4]) \<and>
   file_count_records (Data [1, 2, 3, 4 :: 8 word]) 4 \<le> 2 ^ 62 \<and>
   file_read_at (Data [1, 2, 3, 4 :: 8 word]) 4 (2 ^ 62) = Some [1, 2, 3, 4] \<and>
   file_write_at (Data [1, 2, 3, 4 :: 8 word]) 2 (- (2 ^ 63)) [5, 6] = (1, Data [5, 6, 3, 4])"
proof -
  have "replicate 2 (0 :: 8 word) = [0, 0]" by (simp add: numeral_2_eq_2)
  moreover have "seek_offset 2 1 = 2" "seek_offset 2 2 = 4" "seek_offset 4 (2 ^ 62) = 0"
    "seek_offset 2 (- (2 ^ 63)) = 0"
    by (simp_all add: seek_offset_def)
  ultimately show ?thesis
    by (simp add: file_count_records_Data file_write_at_eval file_read_at_offset)
qed

section \<open>Properties of the domain logic\<close>

subsection \<open>Grades\<close>

text \<open>
  Claim C2: the grade table. The ten symbols have the listed points; every other string,
  the sentinel \<open>NA\<close> among them, gives the invalid result \<open>- 1\<close>, which no valid grade
  has (the points of a valid grade are not negative, and \<open>F\<close> has 0).
\<close>

theorem grade_table:
  "grade_to_points ''A'' = 4 \<and> grade_to_points ''A-'' = 37 / 10 \<and>
   grade_to_points ''B+'' = 33 / 10 \<and> grade_to_points ''B'' = 3 \<and>
   grade_to_points ''B-'' = 27 / 10 \<and> grade_to_points ''C+'' = 23 / 10 \<and>
   grade_to_points ''C'' = 2 \<and> grade_to_points ''C-'' = 17 / 10 \<and>
   grade_to_points ''D'' = 1 \<and> grade_to_points ''F'' = 0 \<and>
   (g \<notin> valid_grades \<longrightarrow> grade_to_points g = - 1) \<and>
   (g \<in> valid_grades \<longrightarrow> 0 \<le> grade_to_points g) \<and>
   grade_to_points ''NA'' = - 1 \<and> grade_to_points ''NA'' \<noteq> grade_to_points ''F''"
  by (simp add: grade_to_points_def valid_grades_def)

theorem grade_table_witness:
  "grade_to_points ''Z'' = - 1 \<and> 0 \<le> grade_to_points ''B+''"
  using grade_table [of "''Z''"] grade_table [of "''B+''"]
  by (simp add: valid_grades_def)

subsection \<open>Passwords\<close>

lemma int_of_size_small: "int n \<le> INT_MAX \<Longrightarrow> int_of_size n = int n"
  by (simp add: int_of_size_def INT_MAX_def signed_of_nat signed_take_bit_int_eq_self)

lemma obfuscate_take:
  assumes "int (length plain) \<le> INT_MAX"
  shows "obfuscate (take MAX_PASS plain) = obfuscate plain"
proof -
  have "int (length (take MAX_PASS plain)) \<le> INT_MAX" using assms by simp
  then have 1: "int_of_size (length (take MAX_PASS plain)) = int (length (take MAX_PASS plain))"
    by (rule int_of_size_small)
  have 2: "int_of_size (length plain) = int (length plain)"
    using assms by (rule int_of_size_small)
  show ?thesis
    unfolding obfuscate_def Let_def 1 2
    by (rule map_cong) auto
qed

text \<open>
  Claim C10, as the code has it: password verification round-trips, and for plaintexts
  of at most \<^verbatim>\<open>INT_MAX\<close> characters it depends on the first 32 characters only.
  \<open>verify_pass\<close> accepts every plaintext against its own obfuscation; \<open>obfuscate\<close> gives the
  same bytes for a plaintext of at most \<^verbatim>\<open>INT_MAX\<close> characters and for its first
  \<open>MAX_PASS\<close> characters; and two such plaintexts with the same first \<open>MAX_PASS\<close>
  characters are accepted against the same stored bytes, or both refused.
\<close>

theorem verify_pass_roundtrip:
  "verify_pass (obfuscate p) p \<and>
   (int (length p) \<le> INT_MAX \<longrightarrow> obfuscate (take MAX_PASS p) = obfuscate p) \<and>
   (int (length p1) \<le> INT_MAX \<and> int (length p2) \<le> INT_MAX \<and>
    take MAX_PASS p1 = take MAX_PASS p2 \<longrightarrow> verify_pass obf p1 = verify_pass obf p2)"
proof -
  have a: "verify_pass (obfuscate p) p"
    by (simp add: verify_pass_def memcmp_eq_def)
  have b: "int (length p) \<le> INT_MAX \<longrightarrow> obfuscate (take MAX_PASS p) = obfuscate p"
    using obfuscate_take by blast
  have c: "int (length p1) \<le> INT_MAX \<and> int (length p2) \<le> INT_MAX \<and>
    take MAX_PASS p1 = take MAX_PASS p2 \<longrightarrow> verify_pass obf p1 = verify_pass obf p2"
  proof
    assume h: "int (length p1) \<le> INT_MAX \<and> int (length p2) \<le> INT_MAX \<and>
      take MAX_PASS p1 = take MAX_PASS p2"
    then have "obfuscate p1 = obfuscate p2"
      using obfuscate_take [of p1] obfuscate_take [of p2] by simp
    then show "verify_pass obf p1 = verify_pass obf p2"
      by (simp add: verify_pass_def)
  qed
  show ?thesis using a b c by (intro conjI)
qed

theorem verify_pass_roundtrip_witness:
  "verify_pass (obfuscate (replicate 32 (CHR ''a'') @ ''x'')) (replicate 32 (CHR ''a'') @ ''y'')"
  using verify_pass_roundtrip [of "replicate 32 (CHR ''a'') @ ''x''"
      "replicate 32 (CHR ''a'') @ ''x''" "replicate 32 (CHR ''a'') @ ''y''"
      "obfuscate (replicate 32 (CHR ''a'') @ ''x'')"]
  by (auto simp: MAX_PASS_def INT_MAX_def)

text \<open>
  Claim C10 as stated speaks of every plaintext. A plaintext of \<open>2 ^ 31\<close> characters
  \<open>a\<close> has the first 32 characters of the password of 32 characters \<open>a\<close>; the password
  is accepted against its own obfuscation and the long plaintext is refused: its length
  narrows to a negative \<^verbatim>\<open>int\<close>, so \<open>obfuscate\<close> reads none of its characters.
\<close>

theorem verify_pass_long_plaintext_counterexample:
  "take MAX_PASS (replicate (2 ^ 31) (CHR ''a'')) = take MAX_PASS (replicate 32 (CHR ''a'')) \<and>
   verify_pass (obfuscate (replicate 32 (CHR ''a''))) (replicate 32 (CHR ''a'')) \<and>
   \<not> verify_pass (obfuscate (replicate 32 (CHR ''a''))) (replicate (2 ^ 31) (CHR ''a''))"
proof -
  have 1: "take MAX_PASS (replicate (2 ^ 31) (CHR ''a'')) = take MAX_PASS (replicate 32 (CHR ''a''))"
    by (simp add: MAX_PASS_def)
  have 2: "verify_pass (obfuscate (replicate 32 (CHR ''a''))) (replicate 32 (CHR ''a''))"
    by (simp add: verify_pass_def memcmp_eq_def)
  have l: "int_of_size (length (replicate (2 ^ 31) (CHR ''a''))) = - (2 ^ 31)"
    "int_of_size (length (replicate 32 (CHR ''a''))) = 32"
    by (simp_all add: int_of_size_def)
  have len: "length (obfuscate q) = MAX_PASS" for q by (simp add: obfuscate_def)
  have "obfuscate (replicate 32 (CHR ''a'')) ! 0 = 0x61 XOR 0x55"
    unfolding obfuscate_def Let_def l by (simp add: MAX_PASS_def SALT_def)
  moreover have "obfuscate (replicate (2 ^ 31) (CHR ''a'')) ! 0 = 0 XOR 0x55"
    unfolding obfuscate_def Let_def l by (simp add: MAX_PASS_def SALT_def)
  ultimately have "obfuscate (replicate 32 (CHR ''a'')) ! 0 \<noteq> obfuscate (replicate (2 ^ 31) (CHR ''a'')) ! 0"
    by simp
  then have "obfuscate (replicate 32 (CHR ''a'')) \<noteq> obfuscate (replicate (2 ^ 31) (CHR ''a''))"
    by metis
  then have 3: "\<not> verify_pass (obfuscate (replicate 32 (CHR ''a''))) (replicate (2 ^ 31) (CHR ''a''))"
    by (simp add: verify_pass_def memcmp_eq_def len)
  show ?thesis using 1 2 3 by (intro conjI)
qed

subsection \<open>Lookups in typed files\<close>

lemma read_records_typed: "read_records (Suc 0) xs = map (\<lambda>x. [x]) xs"
proof (induction xs)
  case Nil
  show ?case by (simp add: read_records_short)
next
  case (Cons x xs)
  have "read_records (Suc 0) (x # xs) = take (Suc 0) (x # xs) # read_records (Suc 0) (drop (Suc 0) (x # xs))"
    by (rule read_records_step) simp_all
  then show ?case using Cons.IH by simp
qed








subsection \<open>Typed files and byte files\<close>

text \<open>
  The typed files of the domain part stand for byte files. For any encoding \<open>enc\<close> of
  the structs of a type in \<open>w\<close> bytes each, with decoding \<open>dec\<close>, a loop that reads the
  byte file in blocks of \<open>w\<close> sees the encodings of the records in order;
  \<^verbatim>\<open>file_find_first\<close> with a predicate on the decoded block returns the index it
  returns on the typed file, with the encoding of the record found; and \<^verbatim>\<open>file_append\<close>
  adds the encoding of the record it adds to the typed file.
\<close>

lemma read_records_encoded:
  assumes w: "0 < w" and len: "\<forall>r \<in> set rs. length (enc r) = w"
  shows "read_records w (concat (map enc rs)) = map enc rs"
  using len
proof (induction rs)
  case Nil
  show ?case using w by (simp add: read_records_short)
next
  case (Cons r rs)
  have l: "length (enc r) = w" using Cons.prems by simp
  have "read_records w (enc r @ concat (map enc rs)) =
        take w (enc r @ concat (map enc rs)) # read_records w (drop w (enc r @ concat (map enc rs)))"
    using w l by (intro read_records_step) simp_all
  then show ?case using l Cons by simp
qed

lemma first_match_encoded:
  assumes "\<forall>r \<in> set rs. dec (enc r) = r"
  shows "first_match (\<lambda>b k. pred [dec b] k) key i (map enc rs) =
     (case first_match pred key i (map (\<lambda>x. [x]) rs) of
        (idx, out) \<Rightarrow> (idx, map_option (\<lambda>b. enc (hd b)) out))"
  using assms by (induction rs arbitrary: i) simp_all

lemma file_find_first_encoded:
  assumes "0 < w" "\<forall>r \<in> set rs. length (enc r) = w" "\<forall>r \<in> set rs. dec (enc r) = r"
  shows "file_find_first (Data (concat (map enc rs))) w (\<lambda>b k. pred [dec b] k) key =
     (case file_find_first (Data rs) 1 pred key of
        (idx, out) \<Rightarrow> (idx, map_option (\<lambda>b. enc (hd b)) out))"
  using assms
  by (simp add: file_find_first_Data read_records_encoded read_records_typed first_match_encoded)

lemma file_append_encoded:
  assumes "0 < w" "length (enc r) = w"
  shows "file_append (Data (concat (map enc rs))) w (enc r) = (1, Data (concat (map enc (rs @ [r]))))"
    and "file_append (Data rs) 1 (block_of r) = (1, Data (rs @ [r]))"
  using assms by (simp_all add: file_append_cases block_of_def)

subsection \<open>Adding students and courses\<close>










subsection \<open>Enrolling\<close>























subsection \<open>Transcript\<close>










subsection \<open>Leaderboard: the accumulation\<close>

















subsection \<open>Leaderboard: the bubble sort\<close>
















subsection \<open>Leaderboard: the report\<close>
















end
